theory Spec2Isabelle
  imports Main "HOL-Library.Sublist"
begin

section \<open>Text as the script sees it\<close>

text \<open>
  The script \<^verbatim>\<open>.github/scripts/validate_patch.py\<close> works on Python \<^verbatim>\<open>str\<close> values:
  sequences of Unicode code points. A character is its code point, a string a list of
  them, and \<open>length\<close> counts what Python's \<^verbatim>\<open>len\<close> counts. ASCII literals are written
  with \<open>lit\<close>.
\<close>

type_synonym pychar = nat
type_synonym pystr = "pychar list"

definition lit :: "string \<Rightarrow> pystr" where
  "lit s = map of_char s"

text \<open>
  Two tables of the Python runtime's Unicode database are reached by the script outside
  ASCII: the decimal digits that \<^verbatim>\<open>\d\<close> matches in a \<^verbatim>\<open>str\<close> pattern, and the case mapping
  of \<^verbatim>\<open>str.lower()\<close> (which is not character-wise: a final sigma depends on its context).
  Neither table is part of the repository and both change with the Python version, so
  they are parameters of the model. On ASCII the behaviour is fixed and written out.
\<close>

datatype unicode_tables =
  Unicode_Tables (decimal_digit: "pychar \<Rightarrow> bool") (to_lower: "pystr \<Rightarrow> pystr")

definition is_ascii :: "pychar \<Rightarrow> bool" where
  "is_ascii c = (c < 128)"

text \<open>\<^verbatim>\<open>\d\<close>\<close>

definition is_decimal :: "unicode_tables \<Rightarrow> pychar \<Rightarrow> bool" where
  "is_decimal T c = (if is_ascii c then 48 \<le> c \<and> c \<le> 57 else decimal_digit T c)"

text \<open>\<^verbatim>\<open>[A-Za-z]\<close> and \<^verbatim>\<open>[A-Za-z0-9]\<close>\<close>

definition is_alpha :: "pychar \<Rightarrow> bool" where
  "is_alpha c = ((65 \<le> c \<and> c \<le> 90) \<or> (97 \<le> c \<and> c \<le> 122))"

definition is_alnum :: "pychar \<Rightarrow> bool" where
  "is_alnum c = (is_alpha c \<or> (48 \<le> c \<and> c \<le> 57))"

text \<open>
  The characters that \<^verbatim>\<open>str.strip()\<close> removes and that \<^verbatim>\<open>\s\<close> matches in a \<^verbatim>\<open>str\<close>
  pattern: both ask CPython's \<^verbatim>\<open>Py_UNICODE_ISSPACE\<close>.
\<close>

definition is_space :: "pychar \<Rightarrow> bool" where
  "is_space c =
     ((9 \<le> c \<and> c \<le> 13) \<or> (28 \<le> c \<and> c \<le> 32) \<or> c = 133 \<or> c = 160 \<or> c = 5760 \<or>
      (8192 \<le> c \<and> c \<le> 8202) \<or> c = 8232 \<or> c = 8233 \<or> c = 8239 \<or> c = 8287 \<or>
      c = 12288)"

text \<open>
  \<^verbatim>\<open>s.strip()\<close>, \<^verbatim>\<open>s.rstrip("\n")\<close>, \<^verbatim>\<open>sep.join(xs)\<close> and
  \<^verbatim>\<open>s.lower()\<close>.
\<close>

definition strip :: "pystr \<Rightarrow> pystr" where
  "strip s = rev (dropWhile is_space (rev (dropWhile is_space s)))"

definition rstrip_nl :: "pystr \<Rightarrow> pystr" where
  "rstrip_nl s = rev (dropWhile (\<lambda>c. c = 10) (rev s))"

fun join :: "pystr \<Rightarrow> pystr list \<Rightarrow> pystr" where
  "join sep [] = []"
| "join sep [x] = x"
| "join sep (x # y # ys) = x @ sep @ join sep (y # ys)"

definition ascii_lower :: "pychar \<Rightarrow> pychar" where
  "ascii_lower c = (if 65 \<le> c \<and> c \<le> 90 then c + 32 else c)"

definition lower :: "unicode_tables \<Rightarrow> pystr \<Rightarrow> pystr" where
  "lower T s = (if list_all is_ascii s then map ascii_lower s else to_lower T s)"

section \<open>The regular expressions\<close>

text \<open>
  \<^verbatim>\<open>JIRA_RE = re.compile(r"([A-Za-z][A-Za-z0-9]+-\d+)")\<close>, used with \<^verbatim>\<open>search\<close>.
  At a position the pattern needs a letter, the longest run of letters and digits after
  it (one at least; a shorter run cannot be followed by the hyphen), a hyphen and one
  decimal digit; \<^verbatim>\<open>search\<close> tries every position.
\<close>

definition JIRA_RE_match :: "unicode_tables \<Rightarrow> pystr \<Rightarrow> bool" where
  "JIRA_RE_match T s =
     (case s of
        [] \<Rightarrow> False
      | c # cs \<Rightarrow>
          is_alpha c \<and> takeWhile is_alnum cs \<noteq> [] \<and>
          (case dropWhile is_alnum cs of
             h # d # _ \<Rightarrow> h = 45 \<and> is_decimal T d
           | _ \<Rightarrow> False))"

fun JIRA_RE_search :: "unicode_tables \<Rightarrow> pystr \<Rightarrow> bool" where
  "JIRA_RE_search T [] = False"
| "JIRA_RE_search T (c # cs) = (JIRA_RE_match T (c # cs) \<or> JIRA_RE_search T cs)"

text \<open>
  \<^verbatim>\<open>re.match(r'^(diff |\+\+\+ |--- |@@ )', s)\<close>: does \<open>s\<close> start like a diff?
\<close>

definition is_diff_start :: "pystr \<Rightarrow> bool" where
  "is_diff_start s =
     (prefix (lit ''diff '') s \<or> prefix (lit ''+++ '') s \<or>
      prefix (lit ''--- '') s \<or> prefix (lit ''@@ '') s)"

text \<open>
  \<^verbatim>\<open>re.match(r'^([A-Za-z]+):\s*(.*)$', line)\<close>, giving the two groups. The key is the
  longest run of letters, a colon follows, \<^verbatim>\<open>\s*\<close> takes all the whitespace there is, and
  \<^verbatim>\<open>(.*)\<close> the rest, which must reach the end of the string without a newline, or stop
  before a single newline that ends the string.
\<close>

definition match_header :: "pystr \<Rightarrow> (pystr \<times> pystr) option" where
  "match_header line =
     (let key = takeWhile is_alpha line in
      case dropWhile is_alpha line of
        [] \<Rightarrow> None
      | c # r \<Rightarrow>
          if key = [] \<or> c \<noteq> 58 then None
          else
            let v = dropWhile is_space r in
            if 10 \<notin> set v then Some (key, v)
            else if last v = 10 \<and> 10 \<notin> set (butlast v) then Some (key, butlast v)
            else None)"

section \<open>parse\_header\<close>

type_synonym fields = "pystr \<rightharpoonup> pystr"

text \<open>
  The inner \<^verbatim>\<open>while j < len(lines)\<close> of the Description branch: it appends the lines
  from \<open>j\<close> on to \<open>desc_lines\<close> until a line that starts a diff or is blank, and gives
  the list and the \<open>j\<close> it stopped at.
\<close>

function desc_loop :: "pystr list \<Rightarrow> nat \<Rightarrow> pystr list \<Rightarrow> pystr list \<times> nat" where
  "desc_loop lines j desc_lines =
     (if j < length lines then
        let ln = lines ! j in
        if is_diff_start ln \<or> strip ln = [] then (desc_lines, j)
        else desc_loop lines (j + 1) (desc_lines @ [rstrip_nl ln])
      else (desc_lines, j))"
  by pat_completeness auto
termination
  by (relation "measure (\<lambda>(lines, j, desc_lines). length lines - j)") auto

declare desc_loop.simps [simp del]

lemma desc_loop_ge: "j \<le> snd (desc_loop lines j desc_lines)"
proof (induction lines j desc_lines rule: desc_loop.induct)
  case (1 lines j desc_lines)
  show ?case
  proof (cases "j < length lines \<and> \<not> (is_diff_start (lines ! j) \<or> strip (lines ! j) = [])")
    case True
    then have "j + 1 \<le> snd (desc_loop lines (j + 1) (desc_lines @ [rstrip_nl (lines ! j)]))"
      using "1.IH" by simp
    then show ?thesis
      using True by (subst desc_loop.simps) (simp add: Let_def)
  next
    case False
    then show ?thesis
      by (subst desc_loop.simps) (auto simp: Let_def)
  qed
qed

text \<open>
  One pass through the body of the \<^verbatim>\<open>while i < len(lines)\<close> of \<^verbatim>\<open>parse_header\<close>,
  for an \<open>i\<close> below \<open>length lines\<close>, on the loop's variables \<open>fields\<close>,
  \<open>desc_lines\<close> and \<open>i\<close>: it ends in a \<^verbatim>\<open>break\<close>, or goes on to the next test of
  the loop condition (by \<^verbatim>\<open>continue\<close> or by reaching \<^verbatim>\<open>i += 1\<close>).
\<close>

type_synonym parse_state = "fields \<times> pystr list \<times> nat"

datatype flow = Break parse_state | Next parse_state

definition parse_body :: "pystr list \<Rightarrow> nat \<Rightarrow> fields \<Rightarrow> pystr list \<Rightarrow> flow" where
  "parse_body lines i fields desc_lines =
     (let line = rstrip_nl (lines ! i) in
      if strip line = [] then
        if i + 1 < length lines \<and> is_diff_start (lines ! (i + 1))
        then Break (fields, desc_lines, i + 1)
        else Next (fields, desc_lines, i + 1)
      else
        (case match_header line of
           Some (key, val) \<Rightarrow>
             if strip key = lit ''Description'' then
               let (desc_lines', j) =
                     desc_loop lines (i + 1)
                       (if val \<noteq> [] then desc_lines @ [val] else desc_lines)
               in Next (fields(lit ''Description'' \<mapsto> strip (join [10] (map strip desc_lines'))),
                        desc_lines', j)
             else Next (fields(strip key \<mapsto> strip val), desc_lines, i + 1)
         | None \<Rightarrow>
             if is_diff_start line then Break (fields, desc_lines, i)
             else Next (fields, desc_lines, i + 1)))"

lemma parse_body_Next_gt:
  assumes "parse_body lines i fields desc_lines = Next (fields', desc_lines', i')"
  shows "i < i'"
proof -
  have gt: "i < b" if "desc_loop lines (Suc i) dl = (a, b)" for dl a b
    using desc_loop_ge [of "Suc i" lines dl] that by simp
  show ?thesis
    using assms
    by (auto simp: parse_body_def Let_def split: if_splits option.splits prod.splits dest: gt)
qed

text \<open>The loop: the final values of \<open>fields\<close>, \<open>desc_lines\<close> and \<open>i\<close>.\<close>

function parse_loop :: "pystr list \<Rightarrow> nat \<Rightarrow> fields \<Rightarrow> pystr list \<Rightarrow> parse_state" where
  "parse_loop lines i fields desc_lines =
     (if i < length lines then
        (case parse_body lines i fields desc_lines of
           Break s \<Rightarrow> s
         | Next (fields', desc_lines', i') \<Rightarrow> parse_loop lines i' fields' desc_lines')
      else (fields, desc_lines, i))"
  by pat_completeness auto
termination
  by (relation "measure (\<lambda>(lines, i, fields, desc_lines). length lines - i)")
    (auto dest: parse_body_Next_gt)

declare parse_loop.simps [simp del]

text \<open>
  \<^verbatim>\<open>parse_header\<close> starts the loop and returns the fields with \<^verbatim>\<open>lines[i:]\<close>;
  \<open>header_end\<close> is that last \<open>i\<close>, the index where the diff body begins.
\<close>

definition parse_header :: "pystr list \<Rightarrow> fields \<times> pystr list" where
  "parse_header lines =
     (let (fields, desc_lines, i) = parse_loop lines 0 Map.empty [] in (fields, drop i lines))"

definition header_end :: "pystr list \<Rightarrow> nat" where
  "header_end lines = snd (snd (parse_loop lines 0 Map.empty []))"

section \<open>validate\_patch\_file\<close>

text \<open>
  The file system is a map from a path to the text of the file, decoded (the script
  opens with \<^verbatim>\<open>errors='replace'\<close>, so decoding gives a text for every byte sequence).
  A path outside the map cannot be opened: \<^verbatim>\<open>path.open\<close> raises an \<^verbatim>\<open>OSError\<close>.
  The other exception of the script is the \<^verbatim>\<open>UnicodeEncodeError\<close> of a \<^verbatim>\<open>print\<close>.
\<close>

datatype py_error = OSError | UnicodeEncodeError

type_synonym path = pystr
type_synonym filesystem = "path \<rightharpoonup> pystr"

text \<open>
  A file opened in text mode with the default \<^verbatim>\<open>newline=None\<close> translates
  \<^verbatim>\<open>\r\n\<close> and \<^verbatim>\<open>\r\<close> to \<^verbatim>\<open>\n\<close>; \<^verbatim>\<open>readlines()\<close> then cuts after every \<^verbatim>\<open>\n\<close> and
  keeps it.
\<close>

fun universal_newlines :: "pystr \<Rightarrow> pystr" where
  "universal_newlines [] = []"
| "universal_newlines [c] = [if c = 13 then 10 else c]"
| "universal_newlines (c # d # cs) =
     (if c = 13 \<and> d = 10 then 10 # universal_newlines cs
      else if c = 13 then 10 # universal_newlines (d # cs)
      else c # universal_newlines (d # cs))"

fun split_lines :: "pystr \<Rightarrow> pystr list" where
  "split_lines [] = []"
| "split_lines (c # cs) =
     (if c = 10 then [10] # split_lines cs
      else (case split_lines cs of [] \<Rightarrow> [[c]] | l # ls \<Rightarrow> (c # l) # ls))"

definition readlines :: "pystr \<Rightarrow> pystr list" where
  "readlines text = split_lines (universal_newlines text)"

definition open_readlines :: "filesystem \<Rightarrow> path \<Rightarrow> py_error + pystr list" where
  "open_readlines fs p = (case fs p of None \<Rightarrow> Inl OSError | Some text \<Rightarrow> Inr (readlines text))"

definition REQUIRED_KEYS :: "pystr list" where
  "REQUIRED_KEYS =
     [lit ''JIRA'', lit ''Upstream'', lit ''Title'', lit ''Author'', lit ''Date'',
      lit ''Description'']"

text \<open>The messages; 39 is the single quote.\<close>

definition empty_msg :: pystr where
  "empty_msg = lit ''Empty file''"

definition missing_msg :: "pystr \<Rightarrow> pystr" where
  "missing_msg key = lit ''Missing or empty required header field: '' @ key"

definition jira_msg :: "pystr \<Rightarrow> pystr" where
  "jira_msg jira = lit ''JIRA field does not contain a valid ticket key: '' @ [39] @ jira @ [39]"

text \<open>
  The upstream message formats \<^verbatim>\<open>fields.get('Upstream')\<close>, which is \<^verbatim>\<open>None\<close> for an
  absent key.
\<close>

definition format_opt :: "pystr option \<Rightarrow> pystr" where
  "format_opt v = (case v of None \<Rightarrow> lit ''None'' | Some s \<Rightarrow> s)"

definition upstream_msg :: "pystr option \<Rightarrow> pystr" where
  "upstream_msg v =
     lit ''Upstream field must be '' @ [39] @ lit ''yes'' @ [39] @ lit '' or '' @ [39] @
     lit ''no'' @ [39] @ lit '', got: '' @ [39] @ format_opt v @ [39]"

definition desc_msg :: pystr where
  "desc_msg =
     lit ''Description must be at least 20 characters and explain the rationale and upstream status.''"

text \<open>\<^verbatim>\<open>fields.get(key, "")\<close>\<close>

definition get :: "fields \<Rightarrow> pystr \<Rightarrow> pystr" where
  "get fields key = (case fields key of None \<Rightarrow> [] | Some v \<Rightarrow> v)"

text \<open>The \<^verbatim>\<open>for key in REQUIRED_KEYS\<close> loop, appending to \<open>errors\<close>.\<close>

fun required_loop :: "fields \<Rightarrow> pystr list \<Rightarrow> pystr list \<Rightarrow> pystr list" where
  "required_loop fields [] errors = errors"
| "required_loop fields (key # keys) errors =
     required_loop fields keys
       (if (case fields key of None \<Rightarrow> True | Some v \<Rightarrow> strip v = [])
        then errors @ [missing_msg key] else errors)"

text \<open>The body of \<^verbatim>\<open>validate_patch_file\<close> once the lines are read.\<close>

definition validate_lines :: "unicode_tables \<Rightarrow> pystr list \<Rightarrow> pystr list" where
  "validate_lines T lines =
     (if lines = [] then [empty_msg]
      else
        let fields = fst (parse_header lines);
            errors1 = required_loop fields REQUIRED_KEYS [];
            jira = get fields (lit ''JIRA'');
            errors2 =
              (if jira \<noteq> [] \<and> \<not> JIRA_RE_search T jira then errors1 @ [jira_msg jira]
               else errors1);
            upstream = lower T (get fields (lit ''Upstream''));
            errors3 =
              (if upstream \<noteq> lit ''yes'' \<and> upstream \<noteq> lit ''no''
               then errors2 @ [upstream_msg (fields (lit ''Upstream''))] else errors2);
            desc = get fields (lit ''Description'')
        in if length (strip desc) < 20 then errors3 @ [desc_msg] else errors3)"

definition validate_patch_file ::
  "unicode_tables \<Rightarrow> filesystem \<Rightarrow> path \<Rightarrow> py_error + pystr list" where
  "validate_patch_file T fs p =
     (case open_readlines fs p of
        Inl e \<Rightarrow> Inl e
      | Inr lines \<Rightarrow> Inr (validate_lines T lines))"

section \<open>main\<close>

text \<open>
  What \<^verbatim>\<open>main\<close> prints is a list of lines, each kept by its kind and its arguments:
  the four lines of the loop, written to stdout, and the two messages written to
  stderr.
\<close>

datatype printed =
  Validating path | Errors_in nat path | Error_line pystr | File_OK path | No_folder | No_files

text \<open>
  What \<^verbatim>\<open>main\<close> asks of its surroundings: the files; stdout, which for the lines
  printed so far and the line to print gives the exception that \<^verbatim>\<open>print\<close> raises, if
  it raises one (a \<^verbatim>\<open>UnicodeEncodeError\<close> when the encoding of stdout lacks a character
  of the line, an \<^verbatim>\<open>OSError\<close> when the write fails); stderr, likewise; whether
  \<^verbatim>\<open>patches/\<close> exists, and what the two globs in it give.
\<close>

datatype environment =
  Environment (files_of: filesystem)
    (stdout_print: "printed list \<Rightarrow> printed \<Rightarrow> py_error option")
    (stderr_print: "printed \<Rightarrow> py_error option")
    (patches_exists: bool) (glob_patch: "path list") (glob_diff: "path list")










section \<open>Notions the properties are stated with\<close>

text \<open>
  A line that the loop reads as a \<^verbatim>\<open>Description:\<close> header: not blank, matched by the
  header pattern, with the key \<^verbatim>\<open>Description\<close>.
\<close>

definition is_description_line :: "pystr \<Rightarrow> bool" where
  "is_description_line raw =
     (let line = rstrip_nl raw in
      strip line \<noteq> [] \<and>
      (case match_header line of
         Some (key, val) \<Rightarrow> strip key = lit ''Description''
       | None \<Rightarrow> False))"

text \<open>
  Unicode tables with nothing outside ASCII, to run the model on ASCII texts, where the
  tables are not consulted.
\<close>

definition ascii_tables :: unicode_tables where
  "ascii_tables = Unicode_Tables (\<lambda>c. False) (map ascii_lower)"

text \<open>Inputs the properties are run on.\<close>

definition cursor_example :: "pystr list" where
  "cursor_example =
     [lit ''Title: a'' @ [10], [10], lit ''diff --git a/x b/x'' @ [10], lit ''JIRA: ABC-1'' @ [10]]"

definition cursor_example' :: "pystr list" where
  "cursor_example' = [lit ''Title: a'' @ [10], [10], lit ''+++ b/x'' @ [10]]"

definition two_descriptions :: "pystr list" where
  "two_descriptions =
     [lit ''Description: first'' @ [10], [10], lit ''Description: second'' @ [10],
      lit ''diff --git a/x b/x'' @ [10]]"

text \<open>
  A header line as it is written in a patch file, a value that fits on one line, and
  the patch file with the six header lines in the order of \<^verbatim>\<open>REQUIRED_KEYS\<close>, the
  line \<^verbatim>\<open>diff --git a/x b/x\<close> and whatever follows.
\<close>

definition header_line :: "pystr \<Rightarrow> pystr \<Rightarrow> pystr" where
  "header_line key v = key @ lit '': '' @ v @ [10]"

definition single_line :: "pystr \<Rightarrow> bool" where
  "single_line v = (10 \<notin> set v \<and> 13 \<notin> set v)"

definition canonical_patch ::
  "pystr \<Rightarrow> pystr \<Rightarrow> pystr \<Rightarrow> pystr \<Rightarrow> pystr \<Rightarrow> pystr \<Rightarrow> pystr \<Rightarrow> pystr" where
  "canonical_patch j u t a d ds rest =
     header_line (lit ''JIRA'') j @ header_line (lit ''Upstream'') u @
     header_line (lit ''Title'') t @ header_line (lit ''Author'') a @
     header_line (lit ''Date'') d @ header_line (lit ''Description'') ds @
     lit ''diff --git a/x b/x'' @ rest"

text \<open>
  Such a file for a ticket, an upstream value and a description; four of them, a file
  that is only a diff line, and surroundings with two of them on disk.
\<close>

definition patch_text :: "pystr \<Rightarrow> pystr \<Rightarrow> pystr \<Rightarrow> pystr" where
  "patch_text jira upstream desc =
     canonical_patch jira upstream (lit ''Fix the build'') (lit ''A Developer'')
       (lit ''2024-05-01'') desc [10]"

definition valid_patch :: pystr where
  "valid_patch = patch_text (lit ''ABC-123'') (lit ''no'') (lit ''Needed for the build'')"

definition short_patch :: pystr where
  "short_patch = patch_text (lit ''ABC-123'') (lit ''YES'') (lit ''Needed for a build.'')"

definition maybe_patch :: pystr where
  "maybe_patch = patch_text (lit ''ABC-123'') (lit ''maybe'') (lit ''Needed for the build'')"

definition bad_patch :: pystr where
  "bad_patch = patch_text (lit ''nottickets'') (lit ''sure'') (lit ''short'')"

definition only_diff :: pystr where
  "only_diff = lit ''diff --git a/x b/x''"





text \<open>
  The six header lines of \<open>valid_patch\<close> with the \<^verbatim>\<open>Description\<close> line first.
\<close>

definition description_first_patch :: pystr where
  "description_first_patch =
     header_line (lit ''Description'') (lit ''Needed for the build'') @
     header_line (lit ''JIRA'') (lit ''ABC-123'') @ header_line (lit ''Upstream'') (lit ''no'') @
     header_line (lit ''Title'') (lit ''Fix the build'') @
     header_line (lit ''Author'') (lit ''A Developer'') @
     header_line (lit ''Date'') (lit ''2024-05-01'') @ lit ''diff --git a/x b/x'' @ [10]"

text \<open>
  Stdout taking a list of lines one after the other, after the lines \<open>out\<close>; and the
  lines that \<^verbatim>\<open>main\<close> prints for files without a violation.
\<close>

fun accepts :: "environment \<Rightarrow> printed list \<Rightarrow> printed list \<Rightarrow> bool" where
  "accepts env out [] = True"
| "accepts env out (l # ls) = (stdout_print env out l = None \<and> accepts env (out @ [l]) ls)"



section \<open>Running the model\<close>

lemmas char_simps =
  lit_def is_space_def is_alpha_def is_alnum_def is_ascii_def is_decimal_def ascii_lower_def

lemmas str_simps =
  strip_def rstrip_nl_def lower_def is_diff_start_def match_header_def JIRA_RE_match_def

lemmas msg_simps =
  empty_msg_def missing_msg_def jira_msg_def upstream_msg_def desc_msg_def format_opt_def

lemmas run_simps =
  char_simps str_simps readlines_def parse_body_def parse_loop.simps desc_loop.simps
  parse_header_def header_end_def validate_lines_def validate_patch_file_def open_readlines_def
  REQUIRED_KEYS_def get_def Let_def

section \<open>The two loops of parse\_header\<close>

lemma desc_loop_le: "j \<le> length lines \<Longrightarrow> snd (desc_loop lines j d) \<le> length lines"
proof (induction lines j d rule: desc_loop.induct)
  case (1 lines j d)
  show ?case
  proof (cases "j < length lines \<and> \<not> (is_diff_start (lines ! j) \<or> strip (lines ! j) = [])")
    case True
    then have "snd (desc_loop lines (j + 1) (d @ [rstrip_nl (lines ! j)])) \<le> length lines"
      using "1.IH" by simp
    then show ?thesis
      using True by (subst desc_loop.simps) (simp add: Let_def)
  next
    case False
    then show ?thesis
      using "1.prems" by (subst desc_loop.simps) (auto simp: Let_def)
  qed
qed

lemma desc_loop_prefix: "prefix d (fst (desc_loop lines j d))"
proof (induction lines j d rule: desc_loop.induct)
  case (1 lines j d)
  show ?case
  proof (cases "j < length lines \<and> \<not> (is_diff_start (lines ! j) \<or> strip (lines ! j) = [])")
    case True
    then have "prefix (d @ [rstrip_nl (lines ! j)])
                 (fst (desc_loop lines (j + 1) (d @ [rstrip_nl (lines ! j)])))"
      using "1.IH" by simp
    then have "prefix d (fst (desc_loop lines (j + 1) (d @ [rstrip_nl (lines ! j)])))"
      using append_prefixD by blast
    then show ?thesis
      using True by (subst desc_loop.simps) (simp add: Let_def)
  next
    case False
    then show ?thesis
      by (subst desc_loop.simps) (auto simp: Let_def)
  qed
qed

lemma desc_loop_take:
  "desc_loop lines j d = (d1, j1) \<Longrightarrow> j1 \<le> c \<Longrightarrow> c \<le> length lines \<Longrightarrow>
   desc_loop (take c lines) j d = (d1, j1)"
proof (induction lines j d rule: desc_loop.induct)
  case (1 lines j d)
  show ?case
  proof (cases "j < length lines \<and> \<not> (is_diff_start (lines ! j) \<or> strip (lines ! j) = [])")
    case True
    then have eq: "desc_loop lines j d = desc_loop lines (j + 1) (d @ [rstrip_nl (lines ! j)])"
      by (subst desc_loop.simps) (simp add: Let_def)
    with "1.prems" have r: "desc_loop lines (j + 1) (d @ [rstrip_nl (lines ! j)]) = (d1, j1)"
      by simp
    then have "j + 1 \<le> j1"
      using desc_loop_ge [of "j + 1" lines "d @ [rstrip_nl (lines ! j)]"] by simp
    with "1.prems" have jc: "j < c" by simp
    have "desc_loop (take c lines) (j + 1) (d @ [rstrip_nl (lines ! j)]) = (d1, j1)"
      using "1.IH" True r "1.prems" by simp
    then show ?thesis
      using True jc "1.prems" by (subst desc_loop.simps) (simp add: Let_def)
  next
    case False
    then have "desc_loop lines j d = (d, j)"
      by (subst desc_loop.simps) (auto simp: Let_def)
    with "1.prems" have e: "d1 = d" "j1 = j" by simp_all
    show ?thesis
      using False "1.prems" e by (subst desc_loop.simps) (auto simp: Let_def)
  qed
qed

lemma parse_body_cases [case_names blank_break blank_next desc field diff_break other]:
  obtains
    "strip (rstrip_nl (lines ! i)) = []" "i + 1 < length lines" "is_diff_start (lines ! (i + 1))"
      "parse_body lines i f d = Break (f, d, i + 1)"
  | "strip (rstrip_nl (lines ! i)) = []" "\<not> (i + 1 < length lines \<and> is_diff_start (lines ! (i + 1)))"
      "parse_body lines i f d = Next (f, d, i + 1)"
  | key v d1 j where "strip (rstrip_nl (lines ! i)) \<noteq> []"
      "match_header (rstrip_nl (lines ! i)) = Some (key, v)" "strip key = lit ''Description''"
      "desc_loop lines (i + 1) (if v \<noteq> [] then d @ [v] else d) = (d1, j)"
      "parse_body lines i f d =
         Next (f(lit ''Description'' \<mapsto> strip (join [10] (map strip d1))), d1, j)"
  | key v where "strip (rstrip_nl (lines ! i)) \<noteq> []"
      "match_header (rstrip_nl (lines ! i)) = Some (key, v)" "strip key \<noteq> lit ''Description''"
      "parse_body lines i f d = Next (f(strip key \<mapsto> strip v), d, i + 1)"
  | "strip (rstrip_nl (lines ! i)) \<noteq> []" "match_header (rstrip_nl (lines ! i)) = None"
      "is_diff_start (rstrip_nl (lines ! i))" "parse_body lines i f d = Break (f, d, i)"
  | "strip (rstrip_nl (lines ! i)) \<noteq> []" "match_header (rstrip_nl (lines ! i)) = None"
      "\<not> is_diff_start (rstrip_nl (lines ! i))" "parse_body lines i f d = Next (f, d, i + 1)"
proof (cases "strip (rstrip_nl (lines ! i)) = []")
  case True
  then show ?thesis
    using that(1,2) by (cases "i + 1 < length lines \<and> is_diff_start (lines ! (i + 1))")
      (simp_all add: parse_body_def)
next
  case nonblank: False
  show ?thesis
  proof (cases "match_header (rstrip_nl (lines ! i))")
    case None
    then show ?thesis
      using nonblank that(5,6) by (cases "is_diff_start (rstrip_nl (lines ! i))")
        (simp_all add: parse_body_def)
  next
    case (Some kv)
    obtain key v where kv: "kv = (key, v)" by (cases kv)
    show ?thesis
    proof (cases "strip key = lit ''Description''")
      case True
      obtain d1 j where dl: "desc_loop lines (i + 1) (if v \<noteq> [] then d @ [v] else d) = (d1, j)"
        by (cases "desc_loop lines (i + 1) (if v \<noteq> [] then d @ [v] else d)")
      show ?thesis
        using that(3) [OF nonblank _ True dl] Some kv nonblank True dl
        by (simp add: parse_body_def)
    next
      case False
      then show ?thesis
        using that(4) [OF nonblank _ False] Some kv nonblank by (simp add: parse_body_def)
    qed
  qed
qed

lemma parse_loop_stop: "\<not> i < length lines \<Longrightarrow> parse_loop lines i f d = (f, d, i)"
  by (subst parse_loop.simps) simp

lemma parse_loop_Break:
  "i < length lines \<Longrightarrow> parse_body lines i f d = Break s \<Longrightarrow> parse_loop lines i f d = s"
  by (subst parse_loop.simps) simp

lemma parse_loop_Next:
  "i < length lines \<Longrightarrow> parse_body lines i f d = Next (f1, d1, i1) \<Longrightarrow>
   parse_loop lines i f d = parse_loop lines i1 f1 d1"
  by (subst parse_loop.simps) simp

lemma parse_body_le:
  assumes "i < length lines"
    and "parse_body lines i f d = Next (f1, d1, i1) \<or> parse_body lines i f d = Break (f1, d1, i1)"
  shows "i1 \<le> length lines"
proof (cases rule: parse_body_cases [where lines = lines and i = i and f = f and d = d])
  case (desc key v d1' j)
  have "snd (desc_loop lines (i + 1) (if v \<noteq> [] then d @ [v] else d)) \<le> length lines"
    using assms(1) by (intro desc_loop_le) simp
  then show ?thesis
    using desc assms by auto
qed (use assms in auto)

lemma parse_loop_bounds:
  "i \<le> length lines \<Longrightarrow> parse_loop lines i f d = (f', d', c) \<Longrightarrow> i \<le> c \<and> c \<le> length lines"
proof (induction lines i f d rule: parse_loop.induct)
  case (1 lines i f d)
  show ?case
  proof (cases "i < length lines")
    case False
    then show ?thesis
      using "1.prems" by (simp add: parse_loop_stop)
  next
    case True
    show ?thesis
    proof (cases "parse_body lines i f d")
      case (Break s)
      then have "s = (f', d', c)"
        using True "1.prems" by (simp add: parse_loop_Break)
      with Break have b: "parse_body lines i f d = Break (f', d', c)" by simp
      have "c \<le> length lines"
        using parse_body_le [OF True] b by blast
      moreover have "i \<le> c"
        using b by (cases rule: parse_body_cases [where lines = lines and i = i and f = f and d = d]) auto
      ultimately show ?thesis by simp
    next
      case (Next s)
      obtain f1 d1 i1 where s: "s = (f1, d1, i1)" by (cases s)
      have gt: "i < i1" using Next s parse_body_Next_gt by blast
      have le: "i1 \<le> length lines" using parse_body_le [OF True] Next s by blast
      have "parse_loop lines i1 f1 d1 = (f', d', c)"
        using True Next s "1.prems" by (simp add: parse_loop_Next)
      then have "i1 \<le> c \<and> c \<le> length lines"
        using "1.IH" [OF True Next s [symmetric] refl le] by simp
      with gt show ?thesis by simp
    qed
  qed
qed

lemma parse_body_take_Next:
  assumes "i < c" "c \<le> length lines" "parse_body lines i f d = Next (f1, d1, i1)" "i1 \<le> c"
  shows "parse_body (take c lines) i f d = Next (f1, d1, i1)"
proof (cases rule: parse_body_cases [where lines = lines and i = i and f = f and d = d])
  case (desc key v d1' j)
  then have e: "d1' = d1" "j = i1" using assms(3) by simp_all
  have "desc_loop (take c lines) (i + 1) (if v \<noteq> [] then d @ [v] else d) = (d1, i1)"
    using desc(4) assms(4,2) unfolding e by (rule desc_loop_take)
  then show ?thesis
    using desc assms e by (auto simp: parse_body_def)
qed (use assms in \<open>auto simp: parse_body_def\<close>)

lemma parse_body_take_Break:
  assumes "i < c" "c \<le> length lines" "parse_body lines i f d = Break (f1, d1, c)"
  shows "parse_body (take c lines) i f d = Next (f1, d1, c)"
proof (cases rule: parse_body_cases [where lines = lines and i = i and f = f and d = d])
  case blank_break
  then show ?thesis
    using assms by (auto simp: parse_body_def)
qed (use assms in auto)

lemma parse_loop_take:
  "i \<le> length lines \<Longrightarrow> parse_loop lines i f d = (f', d', c) \<Longrightarrow>
   parse_loop (take c lines) i f d = (f', d', c)"
proof (induction lines i f d rule: parse_loop.induct)
  case (1 lines i f d)
  note bounds = parse_loop_bounds [OF "1.prems"]
  show ?case
  proof (cases "i < length lines")
    case False
    then show ?thesis
      using "1.prems" by (simp add: parse_loop_stop)
  next
    case True
    show ?thesis
    proof (cases "parse_body lines i f d")
      case (Break s)
      then have "s = (f', d', c)"
        using True "1.prems" by (simp add: parse_loop_Break)
      with Break have b: "parse_body lines i f d = Break (f', d', c)" by simp
      show ?thesis
      proof (cases "i < c")
        case False
        with bounds have "c = i" by simp
        moreover have "f' = f" "d' = d"
          using b by (cases rule: parse_body_cases [where lines = lines and i = i and f = f and d = d]; simp)+
        ultimately show ?thesis
          by (simp add: parse_loop_stop)
      next
        case ic: True
        have n: "parse_body (take c lines) i f d = Next (f', d', c)"
          using ic bounds b by (intro parse_body_take_Break) simp_all
        have "parse_loop (take c lines) i f d = parse_loop (take c lines) c f' d'"
          using ic bounds n by (intro parse_loop_Next) simp_all
        then show ?thesis
          using bounds by (simp add: parse_loop_stop)
      qed
    next
      case (Next s)
      obtain f1 d1 i1 where s: "s = (f1, d1, i1)" by (cases s)
      have gt: "i < i1" using Next s parse_body_Next_gt by blast
      have le: "i1 \<le> length lines" using parse_body_le [OF True] Next s by blast
      have r: "parse_loop lines i1 f1 d1 = (f', d', c)"
        using True Next s "1.prems" by (simp add: parse_loop_Next)
      have b1: "i1 \<le> c" "c \<le> length lines"
        using parse_loop_bounds [OF le r] by simp_all
      have IH: "parse_loop (take c lines) i1 f1 d1 = (f', d', c)"
        using "1.IH" [OF True Next s [symmetric] refl le r] .
      have n: "parse_body (take c lines) i f d = Next (f1, d1, i1)"
        using gt b1 Next s by (intro parse_body_take_Next) simp_all
      have "parse_loop (take c lines) i f d = parse_loop (take c lines) i1 f1 d1"
        using gt b1 n by (intro parse_loop_Next) simp_all
      with IH show ?thesis by simp
    qed
  qed
qed

lemma parse_body_desc:
  assumes "parse_body lines i f d = Next (f1, d1, i1) \<or> parse_body lines i f d = Break (f1, d1, i1)"
  shows "prefix d d1 \<and>
         (f1 (lit ''Description'') = f (lit ''Description'') \<and> d1 = d \<or>
          f1 (lit ''Description'') = Some (strip (join [10] (map strip d1))))"
proof (cases rule: parse_body_cases [where lines = lines and i = i and f = f and d = d])
  case (desc key v d1' j)
  have "prefix (if v \<noteq> [] then d @ [v] else d) (fst (desc_loop lines (i + 1) (if v \<noteq> [] then d @ [v] else d)))"
    by (rule desc_loop_prefix)
  then have "prefix d d1'"
    using desc(4) by (auto dest: append_prefixD split: if_splits)
  then show ?thesis
    using desc assms by auto
qed (use assms in auto)

lemma parse_loop_desc:
  "parse_loop lines i f d = (f', d', c) \<Longrightarrow>
   prefix d d' \<and>
   (f' (lit ''Description'') = f (lit ''Description'') \<and> d' = d \<or>
    f' (lit ''Description'') = Some (strip (join [10] (map strip d'))))"
proof (induction lines i f d rule: parse_loop.induct)
  case (1 lines i f d)
  show ?case
  proof (cases "i < length lines")
    case False
    then show ?thesis
      using "1.prems" by (simp add: parse_loop_stop)
  next
    case True
    show ?thesis
    proof (cases "parse_body lines i f d")
      case (Break s)
      then have "s = (f', d', c)"
        using True "1.prems" by (simp add: parse_loop_Break)
      with Break have b: "parse_body lines i f d = Break (f', d', c)" by simp
      then show ?thesis
        using parse_body_desc [of lines i f d f' d' c] by simp
    next
      case (Next s)
      obtain f1 d1 i1 where s: "s = (f1, d1, i1)" by (cases s)
      have r: "parse_loop lines i1 f1 d1 = (f', d', c)"
        using True Next s "1.prems" by (simp add: parse_loop_Next)
      have IH: "prefix d1 d' \<and>
         (f' (lit ''Description'') = f1 (lit ''Description'') \<and> d' = d1 \<or>
          f' (lit ''Description'') = Some (strip (join [10] (map strip d'))))"
        using "1.IH" [OF True Next s [symmetric] refl r] .
      have st: "prefix d d1 \<and>
         (f1 (lit ''Description'') = f (lit ''Description'') \<and> d1 = d \<or>
          f1 (lit ''Description'') = Some (strip (join [10] (map strip d1))))"
        using parse_body_desc [of lines i f d f1 d1 i1] Next s by simp
      from IH st show ?thesis
        by (auto intro: prefix_order.trans)
    qed
  qed
qed

section \<open>strip, the stored values and the checks\<close>

lemma strip_Nil [simp]: "strip [] = []"
  by (simp add: strip_def)

lemma rstrip_take: "rev (dropWhile P (rev xs)) = take (length xs - length (takeWhile P (rev xs))) xs"
proof -
  have "rev (dropWhile P (rev xs)) = rev (drop (length (takeWhile P (rev xs))) (rev xs))"
    by (simp add: dropWhile_eq_drop)
  also have "\<dots> = take (length xs - length (takeWhile P (rev xs))) xs"
    by (simp add: rev_drop)
  finally show ?thesis .
qed

lemma strip_hd: "strip s \<noteq> [] \<Longrightarrow> \<not> is_space (hd (strip s))"
proof -
  assume ne: "strip s \<noteq> []"
  let ?t = "dropWhile is_space s"
  obtain k where k: "strip s = take k ?t"
    unfolding strip_def using rstrip_take [of is_space ?t] by metis
  with ne have "?t \<noteq> []" "k \<noteq> 0" by auto
  then have "hd (strip s) = hd ?t"
    using k by (cases ?t; cases k) auto
  moreover have "\<not> is_space (hd ?t)"
    using \<open>?t \<noteq> []\<close> by (rule hd_dropWhile)
  ultimately show ?thesis by simp
qed

lemma strip_idem [simp]: "strip (strip s) = strip s"
proof (cases "strip s = []")
  case True
  then show ?thesis by simp
next
  case False
  then have "dropWhile is_space (strip s) = strip s"
    using strip_hd [OF False] by (cases "strip s") auto
  then have "strip (strip s) = rev (dropWhile is_space (rev (strip s)))"
    by (simp add: strip_def)
  also have "\<dots> = strip s"
    by (simp add: strip_def)
  finally show ?thesis .
qed





lemma parse_header_Nil: "fst (parse_header []) = Map.empty"
  by (simp add: parse_header_def parse_loop_stop)

lemma required_loop_eq:
  "required_loop f ks errs =
     errs @ map missing_msg (filter (\<lambda>k. case f k of None \<Rightarrow> True | Some v \<Rightarrow> strip v = []) ks)"
  by (induction ks arbitrary: errs) auto

lemma lower_Nil [simp]: "lower T [] = []"
  by (simp add: lower_def)

lemma JIRA_RE_search_Nil: "JIRA_RE_search T j \<Longrightarrow> j \<noteq> []"
  by auto

lemma msg_heads:
  "missing_msg k = 77 # tl (missing_msg k)" "jira_msg j = 74 # tl (jira_msg j)"
  "upstream_msg v = 85 # tl (upstream_msg v)" "desc_msg = 68 # tl desc_msg"
  by (simp_all add: msg_simps lit_def)

lemma msg_distinct:
  "missing_msg k \<noteq> desc_msg" "jira_msg j \<noteq> desc_msg" "upstream_msg v \<noteq> desc_msg"
  "missing_msg k \<noteq> upstream_msg v" "jira_msg j \<noteq> upstream_msg v" "desc_msg \<noteq> upstream_msg v"
  by (simp_all add: msg_simps lit_def)

lemma validate_patch_file_Some:
  "fs p = Some text \<Longrightarrow> validate_patch_file T fs p = Inr (validate_lines T (readlines text))"
  by (simp add: validate_patch_file_def open_readlines_def)


lemma field_lines_nonempty: "fst (parse_header lines) k = Some v \<Longrightarrow> lines \<noteq> []"
  using parse_header_Nil by auto

section \<open>What JIRA\_RE finds\<close>

lemma JIRA_RE_matchI:
  assumes "is_alpha c" "run \<noteq> []" "\<forall>x \<in> set run. is_alnum x" "is_decimal T d"
  shows "JIRA_RE_match T (c # run @ 45 # d # post)"
proof -
  have n: "\<not> is_alnum 45"
    by (simp add: is_alnum_def is_alpha_def)
  have "takeWhile is_alnum (run @ 45 # d # post) = run"
    using assms(3) n by (simp add: takeWhile_append2)
  moreover have "dropWhile is_alnum (run @ 45 # d # post) = 45 # d # post"
    using assms(3) n by (simp add: dropWhile_append2)
  ultimately show ?thesis
    using assms by (simp add: JIRA_RE_match_def)
qed

lemma JIRA_RE_matchD:
  assumes "JIRA_RE_match T s"
  shows "\<exists>c run d post. s = c # run @ 45 # d # post \<and> is_alpha c \<and> run \<noteq> [] \<and>
           (\<forall>x \<in> set run. is_alnum x) \<and> is_decimal T d"
proof -
  obtain c cs where s: "s = c # cs"
    using assms by (cases s) (auto simp: JIRA_RE_match_def)
  from assms s obtain d post where
    c: "is_alpha c" "takeWhile is_alnum cs \<noteq> []" and
    d: "dropWhile is_alnum cs = 45 # d # post" "is_decimal T d"
    by (auto simp: JIRA_RE_match_def split: list.splits)
  have "cs = takeWhile is_alnum cs @ 45 # d # post"
    using takeWhile_dropWhile_id [of is_alnum cs] d(1) by simp
  then have "s = c # takeWhile is_alnum cs @ 45 # d # post"
    using s by simp
  moreover have "\<forall>x \<in> set (takeWhile is_alnum cs). is_alnum x"
    by (auto dest: set_takeWhileD)
  ultimately show ?thesis
    using c d(2) by blast
qed

lemma JIRA_RE_search_append: "JIRA_RE_search T x \<Longrightarrow> JIRA_RE_search T (pre @ x)"
  by (induction pre) simp_all

lemma JIRA_RE_search_match: "JIRA_RE_match T x \<Longrightarrow> JIRA_RE_search T x"
  by (cases x) (simp_all add: JIRA_RE_match_def)

lemma JIRA_RE_searchD: "JIRA_RE_search T s \<Longrightarrow> \<exists>pre x. s = pre @ x \<and> JIRA_RE_match T x"
proof (induction s)
  case Nil
  then show ?case by simp
next
  case (Cons c cs)
  then have "JIRA_RE_match T (c # cs) \<or> JIRA_RE_search T cs" by simp
  then show ?case
  proof
    assume "JIRA_RE_match T (c # cs)"
    then have "c # cs = [] @ c # cs \<and> JIRA_RE_match T (c # cs)" by simp
    then show ?thesis by blast
  next
    assume "JIRA_RE_search T cs"
    then obtain pre x where "cs = pre @ x" "JIRA_RE_match T x"
      using Cons.IH by blast
    then have "c # cs = (c # pre) @ x \<and> JIRA_RE_match T x" by simp
    then show ?thesis by blast
  qed
qed

lemma ticket_shape_found:
  assumes "letters \<noteq> []" "\<forall>x \<in> set letters. is_alpha x"
    and "alnums \<noteq> []" "\<forall>x \<in> set alnums. is_alnum x"
    and "digits \<noteq> []" "\<forall>x \<in> set digits. is_decimal T x"
  shows "JIRA_RE_search T (pre @ letters @ alnums @ [45] @ digits @ post)"
proof -
  obtain c ls where l: "letters = c # ls" using assms(1) by (cases letters) auto
  obtain d ds where d: "digits = d # ds" using assms(5) by (cases digits) auto
  have 1: "is_alpha c" "is_decimal T d"
    using assms(2,6) l d by simp_all
  have 2: "\<forall>x \<in> set (ls @ alnums). is_alnum x"
    using assms(2,4) l by (auto simp: is_alnum_def)
  have 3: "ls @ alnums \<noteq> []" using assms(3) by simp
  have "JIRA_RE_match T (c # (ls @ alnums) @ 45 # d # (ds @ post))"
    using 1(1) 3 2 1(2) by (rule JIRA_RE_matchI)
  then have "JIRA_RE_match T (letters @ alnums @ [45] @ digits @ post)"
    using l d by simp
  then have "JIRA_RE_search T (letters @ alnums @ [45] @ digits @ post)"
    by (rule JIRA_RE_search_match)
  then show ?thesis
    by (rule JIRA_RE_search_append)
qed

section \<open>Reading and parsing the canonical patch file\<close>

lemma universal_newlines_Cons: "c \<noteq> 13 \<Longrightarrow> universal_newlines (c # cs) = c # universal_newlines cs"
  by (cases cs) simp_all

lemma universal_newlines_append:
  "13 \<notin> set s \<Longrightarrow> universal_newlines (s @ r) = s @ universal_newlines r"
  by (induction s) (simp_all add: universal_newlines_Cons)

lemma split_lines_line: "10 \<notin> set a \<Longrightarrow> split_lines (a @ 10 # r) = (a @ [10]) # split_lines r"
  by (induction a) simp_all

lemma split_lines_first:
  "10 \<notin> set a \<Longrightarrow> a \<noteq> [] \<Longrightarrow> \<exists>l ls. split_lines (a @ r) = (a @ l) # ls"
proof (induction a)
  case Nil
  then show ?case by simp
next
  case (Cons c a)
  show ?case
  proof (cases "a = []")
    case True
    then show ?thesis
      using Cons.prems by (cases "split_lines r") auto
  next
    case False
    then obtain l ls where "split_lines (a @ r) = (a @ l) # ls"
      using Cons by auto
    then show ?thesis
      using Cons.prems by simp
  qed
qed

lemma rstrip_nl_append: "10 \<notin> set xs \<Longrightarrow> rstrip_nl (xs @ l) = xs @ rstrip_nl l"
proof -
  assume a: "10 \<notin> set xs"
  have "dropWhile (\<lambda>c. c = 10) (rev xs) = rev xs"
    using a by (cases "rev xs") (auto simp: in_set_conv_decomp)
  then show ?thesis
    by (simp add: rstrip_nl_def dropWhile_append)
qed

lemma rstrip_nl_line: "10 \<notin> set xs \<Longrightarrow> rstrip_nl (xs @ [10]) = xs"
  using rstrip_nl_append [of xs "[10]"] by (simp add: rstrip_nl_def)

lemma strip_eq_Nil: "strip s = [] \<longleftrightarrow> (\<forall>c \<in> set s. is_space c)"
proof
  assume "strip s = []"
  then have "\<forall>c \<in> set (dropWhile is_space s). is_space c"
    by (simp add: strip_def dropWhile_eq_Nil_conv)
  then have "dropWhile is_space s = []"
    using hd_dropWhile [of is_space s] by (cases "dropWhile is_space s") auto
  then show "\<forall>c \<in> set s. is_space c"
    by (simp add: dropWhile_eq_Nil_conv)
next
  assume "\<forall>c \<in> set s. is_space c"
  then show "strip s = []"
    by (auto simp: strip_def dest: set_dropWhileD)
qed

lemma strip_dropWhile: "strip (dropWhile is_space s) = strip s"
  by (simp add: strip_def)

lemma match_header_line:
  assumes "key \<noteq> []" "\<forall>c \<in> set key. is_alpha c" "10 \<notin> set r"
  shows "match_header (key @ 58 # r) = Some (key, dropWhile is_space r)"
proof -
  have na: "\<not> is_alpha 58"
    by (simp add: is_alpha_def)
  have t: "takeWhile is_alpha (key @ 58 # r) = key"
    using assms(2) na by (simp add: takeWhile_append2)
  have d: "dropWhile is_alpha (key @ 58 # r) = 58 # r"
    using assms(2) na by (simp add: dropWhile_append2)
  have "10 \<notin> set (dropWhile is_space r)"
    using assms(3) set_dropWhileD by fastforce
  then show ?thesis
    using assms(1) by (simp add: match_header_def t d)
qed

lemma header_line_parts:
  assumes "key \<noteq> []" "\<forall>c \<in> set key. is_alpha c" "10 \<notin> set v"
  shows "strip (rstrip_nl (header_line key v)) \<noteq> []"
    and "match_header (rstrip_nl (header_line key v)) = Some (key, dropWhile is_space v)"
    and "strip key = key"
proof -
  have nk: "10 \<notin> set key"
    using assms(2) by (auto simp: is_alpha_def)
  have r: "rstrip_nl (header_line key v) = key @ 58 # 32 # v"
    using rstrip_nl_line [of "key @ 58 # 32 # v"] nk assms(3)
    by (simp add: header_line_def lit_def)
  obtain c where c: "c \<in> set key" "is_alpha c"
    using assms(1,2) by (cases key) auto
  then have "\<not> is_space c"
    by (auto simp: is_alpha_def is_space_def)
  then show "strip (rstrip_nl (header_line key v)) \<noteq> []"
    using c(1) unfolding r strip_eq_Nil by auto
  have "match_header (key @ 58 # (32 # v)) = Some (key, dropWhile is_space (32 # v))"
    using assms by (intro match_header_line) auto
  then show "match_header (rstrip_nl (header_line key v)) = Some (key, dropWhile is_space v)"
    unfolding r by (simp add: is_space_def)
  have ns: "\<forall>c \<in> set key. \<not> is_space c"
    using assms(2) by (auto simp: is_alpha_def is_space_def)
  then have "dropWhile is_space key = key"
    using assms(1) by (cases key) auto
  moreover have "dropWhile is_space (rev key) = rev key"
    using ns assms(1) by (cases "rev key") (auto simp: in_set_conv_decomp)
  ultimately show "strip key = key"
    by (simp add: strip_def)
qed

lemma header_line_no_cr: "13 \<notin> set key \<Longrightarrow> single_line v \<Longrightarrow> 13 \<notin> set (header_line key v)"
  by (simp add: header_line_def single_line_def lit_def)

lemma split_lines_header_line:
  "10 \<notin> set key \<Longrightarrow> single_line v \<Longrightarrow>
   split_lines (header_line key v @ r) = header_line key v # split_lines r"
  using split_lines_line [of "key @ lit '': '' @ v" r]
  by (simp add: header_line_def single_line_def lit_def)

lemma readlines_canonical:
  assumes "single_line j" "single_line u" "single_line t" "single_line a" "single_line d"
    "single_line ds"
  shows "\<exists>l ls. readlines (canonical_patch j u t a d ds rest) =
           [header_line (lit ''JIRA'') j, header_line (lit ''Upstream'') u,
            header_line (lit ''Title'') t, header_line (lit ''Author'') a,
            header_line (lit ''Date'') d, header_line (lit ''Description'') ds,
            lit ''diff --git a/x b/x'' @ l] @ ls"
proof -
  let ?H = "header_line (lit ''JIRA'') j @ header_line (lit ''Upstream'') u @
     header_line (lit ''Title'') t @ header_line (lit ''Author'') a @
     header_line (lit ''Date'') d @ header_line (lit ''Description'') ds @
     lit ''diff --git a/x b/x''"
  have k: "13 \<notin> set (lit ''JIRA'')" "13 \<notin> set (lit ''Upstream'')" "13 \<notin> set (lit ''Title'')"
    "13 \<notin> set (lit ''Author'')" "13 \<notin> set (lit ''Date'')" "13 \<notin> set (lit ''Description'')"
    "10 \<notin> set (lit ''JIRA'')" "10 \<notin> set (lit ''Upstream'')" "10 \<notin> set (lit ''Title'')"
    "10 \<notin> set (lit ''Author'')" "10 \<notin> set (lit ''Date'')" "10 \<notin> set (lit ''Description'')"
    "13 \<notin> set (lit ''diff --git a/x b/x'')" "10 \<notin> set (lit ''diff --git a/x b/x'')"
    "lit ''diff --git a/x b/x'' \<noteq> []"
    by (simp_all add: lit_def)
  have "13 \<notin> set ?H"
    using assms k by (simp add: header_line_no_cr)
  then have "universal_newlines (?H @ rest) = ?H @ universal_newlines rest"
    by (rule universal_newlines_append)
  then have u: "universal_newlines (canonical_patch j u t a d ds rest) =
      header_line (lit ''JIRA'') j @ header_line (lit ''Upstream'') u @
      header_line (lit ''Title'') t @ header_line (lit ''Author'') a @
      header_line (lit ''Date'') d @ header_line (lit ''Description'') ds @
      lit ''diff --git a/x b/x'' @ universal_newlines rest"
    by (simp add: canonical_patch_def)
  obtain l ls where
    "split_lines (lit ''diff --git a/x b/x'' @ universal_newlines rest) =
       (lit ''diff --git a/x b/x'' @ l) # ls"
    using split_lines_first [OF k(14,15)] by blast
  then show ?thesis
    unfolding readlines_def u using assms k by (simp add: split_lines_header_line)
qed

lemma parse_body_field:
  assumes "lines ! i = header_line key v" "key \<noteq> []" "\<forall>c \<in> set key. is_alpha c"
    "single_line v" "key \<noteq> lit ''Description''"
  shows "parse_body lines i f dl = Next (f(key \<mapsto> strip v), dl, i + 1)"
proof -
  have v: "10 \<notin> set v"
    using assms(4) by (simp add: single_line_def)
  note p = header_line_parts [OF assms(2,3) v]
  show ?thesis
    using p assms(5) by (simp add: parse_body_def assms(1) strip_dropWhile)
qed

lemma parse_body_description:
  assumes "lines ! i = header_line (lit ''Description'') v" "single_line v"
    "i + 1 < length lines" "is_diff_start (lines ! (i + 1))"
  shows "\<exists>dl. parse_body lines i f [] = Next (f(lit ''Description'' \<mapsto> strip v), dl, i + 1)"
proof -
  have v: "10 \<notin> set v"
    using assms(2) by (simp add: single_line_def)
  have k: "lit ''Description'' \<noteq> []" "\<forall>c \<in> set (lit ''Description''). is_alpha c"
    by (simp_all add: lit_def is_alpha_def)
  note p = header_line_parts [OF k v]
  have dl: "desc_loop lines (Suc i) dl = (dl, Suc i)" for dl
    using assms(3,4) by (subst desc_loop.simps) simp
  show ?thesis
  proof (cases "dropWhile is_space v = []")
    case True
    then have "strip v = []"
      by (simp add: strip_eq_Nil dropWhile_eq_Nil_conv)
    then have "parse_body lines i f [] = Next (f(lit ''Description'' \<mapsto> strip v), [], i + 1)"
      using p True by (simp add: parse_body_def assms(1) dl)
    then show ?thesis by blast
  next
    case False
    then have "parse_body lines i f [] =
        Next (f(lit ''Description'' \<mapsto> strip v), [dropWhile is_space v], i + 1)"
      using p by (simp add: parse_body_def assms(1) dl strip_dropWhile)
    then show ?thesis by blast
  qed
qed

lemma parse_body_diff_line:
  assumes "lines ! i = lit ''diff --git a/x b/x'' @ l"
  shows "parse_body lines i f dl = Break (f, dl, i)"
proof -
  have r: "rstrip_nl (lit ''diff --git a/x b/x'' @ l) = lit ''diff --git a/x b/x'' @ rstrip_nl l"
    by (rule rstrip_nl_append) (simp add: lit_def)
  have "strip (lit ''diff --git a/x b/x'' @ rstrip_nl l) \<noteq> []"
    unfolding strip_eq_Nil by (simp add: lit_def is_space_def)
  moreover have "match_header (lit ''diff --git a/x b/x'' @ rstrip_nl l) = None"
    by (simp add: match_header_def lit_def is_alpha_def)
  moreover have "is_diff_start (lit ''diff --git a/x b/x'' @ rstrip_nl l)"
    by (simp add: is_diff_start_def lit_def)
  ultimately show ?thesis
    by (simp add: parse_body_def assms r)
qed

lemma is_diff_start_diff_line: "is_diff_start (lit ''diff --git a/x b/x'' @ l)"
  by (simp add: is_diff_start_def lit_def)

lemma canonical_fields:
  assumes "single_line j" "single_line u" "single_line t" "single_line a" "single_line d"
    "single_line ds"
  shows "fst (parse_header (readlines (canonical_patch j u t a d ds rest))) =
           [lit ''JIRA'' \<mapsto> strip j, lit ''Upstream'' \<mapsto> strip u, lit ''Title'' \<mapsto> strip t,
            lit ''Author'' \<mapsto> strip a, lit ''Date'' \<mapsto> strip d, lit ''Description'' \<mapsto> strip ds]"
proof -
  obtain l ls where r: "readlines (canonical_patch j u t a d ds rest) =
           [header_line (lit ''JIRA'') j, header_line (lit ''Upstream'') u,
            header_line (lit ''Title'') t, header_line (lit ''Author'') a,
            header_line (lit ''Date'') d, header_line (lit ''Description'') ds,
            lit ''diff --git a/x b/x'' @ l] @ ls"
    using readlines_canonical [OF assms] by blast
  let ?lines = "[header_line (lit ''JIRA'') j, header_line (lit ''Upstream'') u,
            header_line (lit ''Title'') t, header_line (lit ''Author'') a,
            header_line (lit ''Date'') d, header_line (lit ''Description'') ds,
            lit ''diff --git a/x b/x'' @ l] @ ls"
  have k: "lit ''JIRA'' \<noteq> []" "\<forall>c \<in> set (lit ''JIRA''). is_alpha c" "lit ''JIRA'' \<noteq> lit ''Description''"
    "lit ''Upstream'' \<noteq> []" "\<forall>c \<in> set (lit ''Upstream''). is_alpha c"
    "lit ''Upstream'' \<noteq> lit ''Description''"
    "lit ''Title'' \<noteq> []" "\<forall>c \<in> set (lit ''Title''). is_alpha c" "lit ''Title'' \<noteq> lit ''Description''"
    "lit ''Author'' \<noteq> []" "\<forall>c \<in> set (lit ''Author''). is_alpha c" "lit ''Author'' \<noteq> lit ''Description''"
    "lit ''Date'' \<noteq> []" "\<forall>c \<in> set (lit ''Date''). is_alpha c" "lit ''Date'' \<noteq> lit ''Description''"
    by (simp_all add: lit_def is_alpha_def)
  have b0: "parse_body ?lines 0 f dl = Next (f(lit ''JIRA'' \<mapsto> strip j), dl, 1)" for f dl
    using parse_body_field [of ?lines 0, OF _ k(1,2) assms(1) k(3)] by simp
  have b1: "parse_body ?lines 1 f dl = Next (f(lit ''Upstream'' \<mapsto> strip u), dl, 2)" for f dl
    using parse_body_field [of ?lines 1, OF _ k(4,5) assms(2) k(6)] by simp
  have b2: "parse_body ?lines 2 f dl = Next (f(lit ''Title'' \<mapsto> strip t), dl, 3)" for f dl
    using parse_body_field [of ?lines 2, OF _ k(7,8) assms(3) k(9)] by simp
  have b3: "parse_body ?lines 3 f dl = Next (f(lit ''Author'' \<mapsto> strip a), dl, 4)" for f dl
    using parse_body_field [of ?lines 3, OF _ k(10,11) assms(4) k(12)] by simp
  have b4: "parse_body ?lines 4 f dl = Next (f(lit ''Date'' \<mapsto> strip d), dl, 5)" for f dl
    using parse_body_field [of ?lines 4, OF _ k(13,14) assms(5) k(15)] by simp
  have b5: "\<exists>dl. parse_body ?lines 5 f [] = Next (f(lit ''Description'' \<mapsto> strip ds), dl, 6)" for f
    using parse_body_description [of ?lines 5, OF _ assms(6)] is_diff_start_diff_line by simp
  have b6: "parse_body ?lines 6 f dl = Break (f, dl, 6)" for f dl
    using parse_body_diff_line [of ?lines 6 l] by simp
  let ?f = "[lit ''JIRA'' \<mapsto> strip j, lit ''Upstream'' \<mapsto> strip u, lit ''Title'' \<mapsto> strip t,
            lit ''Author'' \<mapsto> strip a, lit ''Date'' \<mapsto> strip d]"
  obtain dl where b5': "parse_body ?lines 5 ?f [] = Next (?f(lit ''Description'' \<mapsto> strip ds), dl, 6)"
    using b5 by blast
  have "parse_loop ?lines 0 Map.empty [] = parse_loop ?lines 1 [lit ''JIRA'' \<mapsto> strip j] []"
    by (rule parse_loop_Next) (use b0 in simp_all)
  also have "\<dots> = parse_loop ?lines 2 [lit ''JIRA'' \<mapsto> strip j, lit ''Upstream'' \<mapsto> strip u] []"
    by (rule parse_loop_Next) (use b1 in simp_all)
  also have "\<dots> = parse_loop ?lines 3
      [lit ''JIRA'' \<mapsto> strip j, lit ''Upstream'' \<mapsto> strip u, lit ''Title'' \<mapsto> strip t] []"
    by (rule parse_loop_Next) (use b2 in simp_all)
  also have "\<dots> = parse_loop ?lines 4
      [lit ''JIRA'' \<mapsto> strip j, lit ''Upstream'' \<mapsto> strip u, lit ''Title'' \<mapsto> strip t,
       lit ''Author'' \<mapsto> strip a] []"
    by (rule parse_loop_Next) (use b3 in simp_all)
  also have "\<dots> = parse_loop ?lines 5 ?f []"
    by (rule parse_loop_Next) (use b4 in simp_all)
  also have "\<dots> = parse_loop ?lines 6 (?f(lit ''Description'' \<mapsto> strip ds)) dl"
    by (rule parse_loop_Next) (use b5' in simp_all)
  also have "\<dots> = (?f(lit ''Description'' \<mapsto> strip ds), dl, 6)"
    by (rule parse_loop_Break) (use b6 in simp_all)
  finally show ?thesis
    unfolding r by (simp add: parse_header_def)
qed

section \<open>The loop of main\<close>


lemma accepts_total:
  assumes "\<forall>out l. stdout_print env out l = None"
  shows "accepts env out ls"
  using assms by (induction ls arbitrary: out) simp_all





section \<open>The example files, run\<close>

lemma patch_text_fields:
  "fst (parse_header (readlines valid_patch)) =
     [lit ''JIRA'' \<mapsto> lit ''ABC-123'', lit ''Upstream'' \<mapsto> lit ''no'',
      lit ''Title'' \<mapsto> lit ''Fix the build'', lit ''Author'' \<mapsto> lit ''A Developer'',
      lit ''Date'' \<mapsto> lit ''2024-05-01'', lit ''Description'' \<mapsto> lit ''Needed for the build'']"
  "fst (parse_header (readlines short_patch)) =
     [lit ''JIRA'' \<mapsto> lit ''ABC-123'', lit ''Upstream'' \<mapsto> lit ''YES'',
      lit ''Title'' \<mapsto> lit ''Fix the build'', lit ''Author'' \<mapsto> lit ''A Developer'',
      lit ''Date'' \<mapsto> lit ''2024-05-01'', lit ''Description'' \<mapsto> lit ''Needed for a build.'']"
  "fst (parse_header (readlines maybe_patch)) =
     [lit ''JIRA'' \<mapsto> lit ''ABC-123'', lit ''Upstream'' \<mapsto> lit ''maybe'',
      lit ''Title'' \<mapsto> lit ''Fix the build'', lit ''Author'' \<mapsto> lit ''A Developer'',
      lit ''Date'' \<mapsto> lit ''2024-05-01'', lit ''Description'' \<mapsto> lit ''Needed for the build'']"
  "fst (parse_header (readlines bad_patch)) =
     [lit ''JIRA'' \<mapsto> lit ''nottickets'', lit ''Upstream'' \<mapsto> lit ''sure'',
      lit ''Title'' \<mapsto> lit ''Fix the build'', lit ''Author'' \<mapsto> lit ''A Developer'',
      lit ''Date'' \<mapsto> lit ''2024-05-01'', lit ''Description'' \<mapsto> lit ''short'']"
  by (simp_all add: valid_patch_def short_patch_def maybe_patch_def bad_patch_def patch_text_def
      canonical_patch_def header_line_def run_simps)

lemma example_runs:
  "validate_lines T (readlines valid_patch) = []"
  "validate_lines T (readlines short_patch) = [desc_msg]"
  "validate_lines T (readlines maybe_patch) = [upstream_msg (Some (lit ''maybe''))]"
  "validate_lines T (readlines bad_patch) =
     [jira_msg (lit ''nottickets''), upstream_msg (Some (lit ''sure'')), desc_msg]"
  "validate_lines T (readlines only_diff) =
     map missing_msg REQUIRED_KEYS @ [upstream_msg None, desc_msg]"
  by (simp_all add: valid_patch_def short_patch_def maybe_patch_def bad_patch_def patch_text_def
      canonical_patch_def header_line_def only_diff_def run_simps msg_simps)

lemma single_file: "[p \<mapsto> content] p = Some content"
  by simp


lemma bad_patch_lookup:
  "fst (parse_header (readlines bad_patch)) (lit ''JIRA'') = Some (lit ''nottickets'')"
  "fst (parse_header (readlines bad_patch)) (lit ''Upstream'') = Some (lit ''sure'')"
  "fst (parse_header (readlines bad_patch)) (lit ''Description'') = Some (lit ''short'')"
  "fst (parse_header (readlines bad_patch)) (lit ''Title'') = Some (lit ''Fix the build'')"
  "fst (parse_header (readlines bad_patch)) (lit ''Author'') = Some (lit ''A Developer'')"
  "fst (parse_header (readlines bad_patch)) (lit ''Date'') = Some (lit ''2024-05-01'')"
  by (simp_all add: patch_text_fields(4) lit_def)

lemma example_values:
  "JIRA_RE_search T (lit ''ABC-123'')" "lower T (lit ''no'') = lit ''no''"
  "strip (lit ''Fix the build'') \<noteq> []" "strip (lit ''A Developer'') \<noteq> []"
  "strip (lit ''2024-05-01'') \<noteq> []" "length (strip (lit ''Needed for the build'')) = 20"
  "length (strip (lit ''Needed for a build.'')) = 19"
  "lower T (lit ''YES'') = lit ''yes''" "lower T (lit ''maybe'') \<noteq> lit ''yes''"
  "lower T (lit ''maybe'') \<noteq> lit ''no''"
  by (simp_all add: char_simps str_simps)






lemma description_first_fields:
  "fst (parse_header (readlines description_first_patch)) =
     [lit ''Description'' \<mapsto>
        lit ''Needed for the build'' @ [10] @ lit ''JIRA: ABC-123'' @ [10] @ lit ''Upstream: no'' @
        [10] @ lit ''Title: Fix the build'' @ [10] @ lit ''Author: A Developer'' @ [10] @
        lit ''Date: 2024-05-01'']"
  by (simp add: description_first_patch_def header_line_def run_simps)

lemma cursor_example_run:
  "parse_loop cursor_example 0 Map.empty [] = ([lit ''Title'' \<mapsto> lit ''a''], [], 2)"
  by (simp add: cursor_example_def run_simps)

lemma cursor_example'_run:
  "parse_loop cursor_example' 0 Map.empty [] = ([lit ''Title'' \<mapsto> lit ''a''], [], 2)"
  by (simp add: cursor_example'_def run_simps)

lemma two_descriptions_run:
  "parse_loop two_descriptions 0 Map.empty [] =
     ([lit ''Description'' \<mapsto> lit ''first'' @ [10] @ lit ''second''], [lit ''first'', lit ''second''], 3)"
  "parse_loop two_descriptions 2 [lit ''Description'' \<mapsto> lit ''first''] [lit ''first''] =
     ([lit ''Description'' \<mapsto> lit ''first'' @ [10] @ lit ''second''], [lit ''first'', lit ''second''], 3)"
  "parse_loop two_descriptions 0 Map.empty [] =
     parse_loop two_descriptions 2 [lit ''Description'' \<mapsto> lit ''first''] [lit ''first'']"
  by (simp_all add: two_descriptions_def run_simps)

section \<open>The properties\<close>

subsection \<open>validate\_patch\_file\<close>

text \<open>
  C1, as the code has it. For a file that is only the line \<^verbatim>\<open>diff --git a/x b/x\<close>
  (with or without its newline), \<^verbatim>\<open>validate_patch_file\<close> returns eight violations: the
  six missing-field messages in the order of \<^verbatim>\<open>REQUIRED_KEYS\<close>, then the upstream-value
  message and the description-length message. Only the ticket check is guarded by the
  presence of its field; the upstream and description checks read the absent field as
  the empty string.
\<close>

theorem missing_fields_eight_violations:
  assumes opened: "fs p = Some text"
    and content: "text = lit ''diff --git a/x b/x'' \<or> text = lit ''diff --git a/x b/x'' @ [10]"
  shows "validate_patch_file T fs p =
           Inr (map missing_msg REQUIRED_KEYS @ [upstream_msg None, desc_msg])"
proof -
  have "validate_lines T (readlines (lit ''diff --git a/x b/x'')) =
      map missing_msg REQUIRED_KEYS @ [upstream_msg None, desc_msg]"
    by (simp add: run_simps)
  moreover have "validate_lines T (readlines (lit ''diff --git a/x b/x'' @ [10])) =
      map missing_msg REQUIRED_KEYS @ [upstream_msg None, desc_msg]"
    by (simp add: run_simps)
  ultimately have "validate_lines T (readlines text) =
      map missing_msg REQUIRED_KEYS @ [upstream_msg None, desc_msg]"
    using content by blast
  then show ?thesis
    using opened by (simp add: validate_patch_file_Some)
qed

text \<open>
  The specification's count for that file, exactly the six missing-field messages, is
  not what is returned.
\<close>

theorem missing_fields_six_counterexample:
  "validate_patch_file ascii_tables [lit ''only.patch'' \<mapsto> only_diff] (lit ''only.patch'') \<noteq>
     Inr (map missing_msg REQUIRED_KEYS)"
  by (simp add: validate_patch_file_Some example_runs)

theorem missing_fields_eight_violations_witness:
  "validate_patch_file ascii_tables [lit ''only.patch'' \<mapsto> only_diff] (lit ''only.patch'') =
     Inr (map missing_msg REQUIRED_KEYS @ [upstream_msg None, desc_msg])"
  by (rule missing_fields_eight_violations
      [where fs = "[lit ''only.patch'' \<mapsto> only_diff]" and p = "lit ''only.patch''",
        OF single_file [of "lit ''only.patch''" only_diff]])
    (simp add: only_diff_def)

text \<open>
  C3, as the code has it. When the header parses to \<^verbatim>\<open>JIRA\<close> = \<^verbatim>\<open>nottickets\<close>,
  \<^verbatim>\<open>Upstream\<close> = \<^verbatim>\<open>sure\<close>, \<^verbatim>\<open>Description\<close> = \<^verbatim>\<open>short\<close> and non-empty \<^verbatim>\<open>Title\<close>,
  \<^verbatim>\<open>Author\<close> and \<^verbatim>\<open>Date\<close>, the violations are three in all: the ticket shape, the
  upstream value and the description length, and no missing-field message.
\<close>

theorem three_format_violations:
  assumes opened: "fs p = Some text"
    and jira: "fst (parse_header (readlines text)) (lit ''JIRA'') = Some (lit ''nottickets'')"
    and upstream: "fst (parse_header (readlines text)) (lit ''Upstream'') = Some (lit ''sure'')"
    and desc: "fst (parse_header (readlines text)) (lit ''Description'') = Some (lit ''short'')"
    and title: "fst (parse_header (readlines text)) (lit ''Title'') = Some t" "strip t \<noteq> []"
    and author: "fst (parse_header (readlines text)) (lit ''Author'') = Some a" "strip a \<noteq> []"
    and date: "fst (parse_header (readlines text)) (lit ''Date'') = Some d" "strip d \<noteq> []"
  shows "validate_patch_file T fs p =
           Inr [jira_msg (lit ''nottickets''), upstream_msg (Some (lit ''sure'')), desc_msg]"
proof -
  let ?lines = "readlines text"
  have ne: "?lines \<noteq> []"
    using jira by (rule field_lines_nonempty)
  have c: "strip (lit ''nottickets'') \<noteq> []" "strip (lit ''sure'') \<noteq> []" "strip (lit ''short'') \<noteq> []"
    "\<not> JIRA_RE_search T (lit ''nottickets'')" "lit ''nottickets'' \<noteq> []"
    "lower T (lit ''sure'') \<noteq> lit ''yes''" "lower T (lit ''sure'') \<noteq> lit ''no''"
    "length (strip (lit ''short'')) < 20"
    by (simp_all add: char_simps str_simps)
  have "validate_lines T ?lines =
      [jira_msg (lit ''nottickets''), upstream_msg (Some (lit ''sure'')), desc_msg]"
    using ne jira upstream title author date desc c
    by (simp add: validate_lines_def REQUIRED_KEYS_def get_def Let_def)
  then show ?thesis
    using opened by (simp add: validate_patch_file_Some)
qed

text \<open>
  The specification counts five violations for such a header; a file with it gives
  these three.
\<close>

theorem five_violations_counterexample:
  "validate_patch_file ascii_tables [lit ''bad.patch'' \<mapsto> bad_patch] (lit ''bad.patch'') =
     Inr [jira_msg (lit ''nottickets''), upstream_msg (Some (lit ''sure'')), desc_msg]"
  by (simp add: validate_patch_file_Some example_runs)

theorem three_format_violations_witness:
  "strip (lit ''Fix the build'') \<noteq> [] \<and> strip (lit ''A Developer'') \<noteq> [] \<and>
   strip (lit ''2024-05-01'') \<noteq> [] \<and>
   validate_patch_file ascii_tables [lit ''bad.patch'' \<mapsto> bad_patch] (lit ''bad.patch'') =
     Inr [jira_msg (lit ''nottickets''), upstream_msg (Some (lit ''sure'')), desc_msg]"
proof -
  note ne = example_values(3,4,5)
  have "validate_patch_file ascii_tables [lit ''bad.patch'' \<mapsto> bad_patch] (lit ''bad.patch'') =
     Inr [jira_msg (lit ''nottickets''), upstream_msg (Some (lit ''sure'')), desc_msg]"
    by (rule three_format_violations
        [where fs = "[lit ''bad.patch'' \<mapsto> bad_patch]" and p = "lit ''bad.patch''",
          OF single_file [of "lit ''bad.patch''" bad_patch] bad_patch_lookup(1,2,3)
          bad_patch_lookup(4) ne(1) bad_patch_lookup(5) ne(2) bad_patch_lookup(6) ne(3)])
  with ne show ?thesis by blast
qed




text \<open>
  The hypotheses of the theorem, met by the text of the file: on a patch file with
  the six header lines in the order of \<^verbatim>\<open>REQUIRED_KEYS\<close>, the \<^verbatim>\<open>Description\<close> line
  last, the fields are the trimmed values, whatever follows the diff line, so valid
  values give no violation.
\<close>

corollary canonical_patch_no_violations:
  assumes opened: "fs p = Some (canonical_patch j u t a d ds rest)"
    and lines: "single_line j" "single_line u" "single_line t" "single_line a" "single_line d"
      "single_line ds"
    and jira: "JIRA_RE_search T (strip j)"
    and upstream: "lower T (strip u) = lit ''yes'' \<or> lower T (strip u) = lit ''no''"
    and others: "strip t \<noteq> []" "strip a \<noteq> []" "strip d \<noteq> []"
    and desc: "20 \<le> length (strip ds)"
  shows "validate_patch_file T fs p = Inr []"
proof -
  let ?lines = "readlines (canonical_patch j u t a d ds rest)"
  note f = canonical_fields [OF lines, of rest]
  have ne: "?lines \<noteq> []"
    using readlines_canonical [OF lines, of rest] by auto
  have j: "strip j \<noteq> []"
    using jira by auto
  have u: "strip u \<noteq> []"
    using upstream by (auto simp: lit_def)
  have ds: "strip ds \<noteq> []"
    using desc by auto
  have l: "fst (parse_header ?lines) (lit ''JIRA'') = Some (strip j)"
    "fst (parse_header ?lines) (lit ''Upstream'') = Some (strip u)"
    "fst (parse_header ?lines) (lit ''Title'') = Some (strip t)"
    "fst (parse_header ?lines) (lit ''Author'') = Some (strip a)"
    "fst (parse_header ?lines) (lit ''Date'') = Some (strip d)"
    "fst (parse_header ?lines) (lit ''Description'') = Some (strip ds)"
    unfolding f by (simp_all add: lit_def)
  have "validate_lines T ?lines = []"
    using ne l jira upstream others desc j u ds
    by (auto simp: validate_lines_def REQUIRED_KEYS_def get_def Let_def)
  then show ?thesis
    using opened by (simp add: validate_patch_file_Some)
qed

text \<open>
  C6. When the header has a \<^verbatim>\<open>Description\<close>, the description-length message is among
  the violations exactly when the trimmed description is shorter than 20 characters.
\<close>

theorem description_length_boundary:
  assumes opened: "fs p = Some text"
    and desc: "fst (parse_header (readlines text)) (lit ''Description'') = Some d"
  shows "\<exists>errs. validate_patch_file T fs p = Inr errs \<and>
           (desc_msg \<in> set errs \<longleftrightarrow> length (strip d) < 20)"
proof -
  let ?lines = "readlines text"
  have ne: "?lines \<noteq> []"
    using desc by (rule field_lines_nonempty)
  have "desc_msg \<in> set (validate_lines T ?lines) \<longleftrightarrow> length (strip d) < 20"
    using ne desc
    by (auto simp: validate_lines_def get_def Let_def required_loop_eq msg_distinct
        msg_distinct [symmetric])
  then show ?thesis
    using opened by (simp add: validate_patch_file_Some)
qed

theorem description_length_boundary_witness:
  "length (strip (lit ''Needed for the build'')) = 20 \<and>
   (\<exists>errs. validate_patch_file ascii_tables [lit ''good.patch'' \<mapsto> valid_patch] (lit ''good.patch'') =
      Inr errs \<and> desc_msg \<notin> set errs) \<and>
   length (strip (lit ''Needed for a build.'')) = 19 \<and>
   (\<exists>errs. validate_patch_file ascii_tables [lit ''short.patch'' \<mapsto> short_patch] (lit ''short.patch'') =
      Inr errs \<and> desc_msg \<in> set errs)"
proof -
  note l = example_values(6,7)
  have d: "fst (parse_header (readlines valid_patch)) (lit ''Description'') =
      Some (lit ''Needed for the build'')"
    "fst (parse_header (readlines short_patch)) (lit ''Description'') =
      Some (lit ''Needed for a build.'')"
    by (simp_all add: patch_text_fields lit_def)
  from description_length_boundary
      [where fs = "[lit ''good.patch'' \<mapsto> valid_patch]" and p = "lit ''good.patch''",
        OF single_file [of "lit ''good.patch''" valid_patch] d(1), of ascii_tables] l(1)
  have 1: "\<exists>errs. validate_patch_file ascii_tables [lit ''good.patch'' \<mapsto> valid_patch] (lit ''good.patch'') =
      Inr errs \<and> desc_msg \<notin> set errs"
    by auto
  from description_length_boundary
      [where fs = "[lit ''short.patch'' \<mapsto> short_patch]" and p = "lit ''short.patch''",
        OF single_file [of "lit ''short.patch''" short_patch] d(2), of ascii_tables] l(2)
  have 2: "\<exists>errs. validate_patch_file ascii_tables [lit ''short.patch'' \<mapsto> short_patch] (lit ''short.patch'') =
      Inr errs \<and> desc_msg \<in> set errs"
    by auto
  from l 1 2 show ?thesis by blast
qed

text \<open>
  C7. When the header has an \<^verbatim>\<open>Upstream\<close> field, the upstream-value message is among
  the violations exactly when the lowercased value is neither \<^verbatim>\<open>yes\<close> nor \<^verbatim>\<open>no\<close>; any
  violation that starts like the upstream message is that message, and it contains the
  value as stored, not lowercased.
\<close>

theorem upstream_value_check:
  assumes opened: "fs p = Some text"
    and upstream: "fst (parse_header (readlines text)) (lit ''Upstream'') = Some u"
  shows "\<exists>errs. validate_patch_file T fs p = Inr errs \<and>
           (upstream_msg (Some u) \<in> set errs \<longleftrightarrow>
              lower T u \<noteq> lit ''yes'' \<and> lower T u \<noteq> lit ''no'') \<and>
           (\<forall>e \<in> set errs. prefix (lit ''Upstream field must be'') e \<longrightarrow> e = upstream_msg (Some u)) \<and>
           sublist u (upstream_msg (Some u))"
proof -
  let ?lines = "readlines text"
  have ne: "?lines \<noteq> []"
    using upstream by (rule field_lines_nonempty)
  have np: "\<not> prefix (lit ''Upstream field must be'') (missing_msg k)"
    "\<not> prefix (lit ''Upstream field must be'') (jira_msg j)"
    "\<not> prefix (lit ''Upstream field must be'') desc_msg" for k j
    by (simp_all add: msg_simps lit_def)
  have 1: "upstream_msg (Some u) \<in> set (validate_lines T ?lines) \<longleftrightarrow>
      lower T u \<noteq> lit ''yes'' \<and> lower T u \<noteq> lit ''no''"
    using ne upstream
    by (auto simp: validate_lines_def get_def Let_def required_loop_eq msg_distinct
        msg_distinct [symmetric])
  have 2: "\<forall>e \<in> set (validate_lines T ?lines).
      prefix (lit ''Upstream field must be'') e \<longrightarrow> e = upstream_msg (Some u)"
    using ne upstream
    by (auto simp: validate_lines_def get_def Let_def required_loop_eq np)
  have 3: "sublist u (upstream_msg (Some u))"
    unfolding upstream_msg_def format_opt_def sublist_def
    by (rule exI [of _ "lit ''Upstream field must be '' @ [39] @ lit ''yes'' @ [39] @ lit '' or '' @ [39] @
     lit ''no'' @ [39] @ lit '', got: '' @ [39]"], rule exI [of _ "[39]"]) simp
  from 1 2 3 show ?thesis
    using opened by (simp add: validate_patch_file_Some)
qed

theorem upstream_value_check_witness:
  "(\<exists>errs. validate_patch_file ascii_tables [lit ''short.patch'' \<mapsto> short_patch] (lit ''short.patch'') =
      Inr errs \<and> upstream_msg (Some (lit ''YES'')) \<notin> set errs) \<and>
   (\<exists>errs. validate_patch_file ascii_tables [lit ''maybe.patch'' \<mapsto> maybe_patch] (lit ''maybe.patch'') =
      Inr errs \<and> upstream_msg (Some (lit ''maybe'')) \<in> set errs) \<and>
   sublist (lit ''maybe'') (upstream_msg (Some (lit ''maybe'')))"
proof -
  note l = example_values(8,9,10) [of ascii_tables]
  have u: "fst (parse_header (readlines short_patch)) (lit ''Upstream'') = Some (lit ''YES'')"
    "fst (parse_header (readlines maybe_patch)) (lit ''Upstream'') = Some (lit ''maybe'')"
    by (simp_all add: patch_text_fields lit_def)
  from upstream_value_check
      [where fs = "[lit ''short.patch'' \<mapsto> short_patch]" and p = "lit ''short.patch''",
        OF single_file [of "lit ''short.patch''" short_patch] u(1), of ascii_tables] l(1)
  have 1: "\<exists>errs. validate_patch_file ascii_tables [lit ''short.patch'' \<mapsto> short_patch] (lit ''short.patch'') =
      Inr errs \<and> upstream_msg (Some (lit ''YES'')) \<notin> set errs"
    by auto
  from upstream_value_check
      [where fs = "[lit ''maybe.patch'' \<mapsto> maybe_patch]" and p = "lit ''maybe.patch''",
        OF single_file [of "lit ''maybe.patch''" maybe_patch] u(2), of ascii_tables] l(2,3)
  have 2: "(\<exists>errs. validate_patch_file ascii_tables [lit ''maybe.patch'' \<mapsto> maybe_patch] (lit ''maybe.patch'') =
      Inr errs \<and> upstream_msg (Some (lit ''maybe'')) \<in> set errs) \<and>
      sublist (lit ''maybe'') (upstream_msg (Some (lit ''maybe'')))"
    by auto
  from 1 2 show ?thesis by blast
qed

text \<open>
  C8. A file of zero bytes gives exactly one violation, \<^verbatim>\<open>Empty file\<close>: no other check
  adds to the list.
\<close>

theorem empty_file_one_violation:
  assumes "fs p = Some []"
  shows "validate_patch_file T fs p = Inr [lit ''Empty file'']"
  using assms
  by (simp add: validate_patch_file_def open_readlines_def readlines_def validate_lines_def
      empty_msg_def)

theorem empty_file_one_violation_witness:
  "validate_patch_file ascii_tables [lit ''a.patch'' \<mapsto> []] (lit ''a.patch'') =
     Inr [lit ''Empty file'']"
proof -
  have "[lit ''a.patch'' \<mapsto> []] (lit ''a.patch'') = Some []"
    by simp
  then show ?thesis
    by (rule empty_file_one_violation)
qed

subsection \<open>parse\_header\<close>

text \<open>
  C5. The index where \<^verbatim>\<open>parse_header\<close> stops is at most the number of lines, the
  remainder it returns is the input from that index on, and the fields are those of the
  lines before that index alone: parsing only these gives the same fields, and so does
  any input that has the same lines before the index and stops at the same index. The
  empty input gives no field and index 0.
\<close>

theorem parse_header_cursor:
  "header_end lines \<le> length lines \<and>
   snd (parse_header lines) = drop (header_end lines) lines \<and>
   fst (parse_header (take (header_end lines) lines)) = fst (parse_header lines) \<and>
   (\<forall>lines'. header_end lines' = header_end lines \<and>
        take (header_end lines) lines' = take (header_end lines) lines \<longrightarrow>
        fst (parse_header lines') = fst (parse_header lines)) \<and>
   header_end [] = 0 \<and> parse_header [] = (Map.empty, [])"
proof -
  have fields_take: "fst (parse_header (take (header_end ls) ls)) = fst (parse_header ls)" for ls
  proof -
    obtain f d c where r: "parse_loop ls 0 Map.empty [] = (f, d, c)"
      by (cases "parse_loop ls 0 Map.empty []")
    then have "parse_loop (take c ls) 0 Map.empty [] = (f, d, c)"
      by (intro parse_loop_take) simp_all
    with r show ?thesis
      by (simp add: parse_header_def header_end_def)
  qed
  obtain f d c where r: "parse_loop lines 0 Map.empty [] = (f, d, c)"
    by (cases "parse_loop lines 0 Map.empty []")
  have 1: "header_end lines \<le> length lines"
    using parse_loop_bounds [OF _ r] r by (simp add: header_end_def)
  have 2: "snd (parse_header lines) = drop (header_end lines) lines"
    using r by (simp add: parse_header_def header_end_def)
  have 4: "fst (parse_header lines') = fst (parse_header lines)"
    if "header_end lines' = header_end lines"
      "take (header_end lines) lines' = take (header_end lines) lines" for lines'
    using fields_take [of lines] fields_take [of lines'] that by simp
  have 5: "header_end [] = 0" "parse_header [] = (Map.empty, [])"
    by (simp_all add: header_end_def parse_header_def parse_loop_stop)
  from 1 2 fields_take [of lines] 4 5 show ?thesis
    by blast
qed

theorem parse_header_cursor_witness:
  "header_end cursor_example = 2 \<and>
   snd (parse_header cursor_example) = [lit ''diff --git a/x b/x'' @ [10], lit ''JIRA: ABC-1'' @ [10]] \<and>
   fst (parse_header cursor_example') = fst (parse_header cursor_example) \<and>
   fst (parse_header cursor_example) (lit ''JIRA'') = None"
proof -
  note th = parse_header_cursor [of cursor_example]
  have c: "header_end cursor_example = 2" "header_end cursor_example' = 2"
    by (simp_all add: header_end_def cursor_example_run cursor_example'_run)
  have t: "take 2 cursor_example' = take 2 cursor_example"
    by (simp add: cursor_example_def cursor_example'_def)
  from th have "\<forall>lines'. header_end lines' = header_end cursor_example \<and>
        take (header_end cursor_example) lines' = take (header_end cursor_example) cursor_example \<longrightarrow>
        fst (parse_header lines') = fst (parse_header cursor_example)"
    by blast
  then have same: "fst (parse_header cursor_example') = fst (parse_header cursor_example)"
    using c t by metis
  from th have "snd (parse_header cursor_example) = drop (header_end cursor_example) cursor_example"
    by blast
  then have rest: "snd (parse_header cursor_example) =
      [lit ''diff --git a/x b/x'' @ [10], lit ''JIRA: ABC-1'' @ [10]]"
    unfolding c by (simp add: cursor_example_def)
  have none: "fst (parse_header cursor_example) (lit ''JIRA'') = None"
    by (simp add: parse_header_def cursor_example_run lit_def)
  from c(1) rest same none show ?thesis
    by blast
qed

text \<open>
  C10. The list \<open>desc_lines\<close> is never reset. Run from any line \<open>i\<close> with the lines
  \<open>desc_lines\<close> that earlier \<^verbatim>\<open>Description:\<close> headers collected, the loop ends with a
  list that starts with them; the field \<^verbatim>\<open>Description\<close> is then either untouched (and
  so is the list) or the newline-join of the whole final list, and it is the latter
  when line \<open>i\<close> is itself a \<^verbatim>\<open>Description:\<close> header.
\<close>

theorem description_accumulator_shared:
  assumes "parse_loop lines i fields desc_lines = (fields', desc_lines', c)"
  shows "prefix desc_lines desc_lines' \<and>
         (fields' (lit ''Description'') = fields (lit ''Description'') \<and> desc_lines' = desc_lines \<or>
          fields' (lit ''Description'') = Some (strip (join [10] (map strip desc_lines')))) \<and>
         (i < length lines \<and> is_description_line (lines ! i) \<longrightarrow>
          fields' (lit ''Description'') = Some (strip (join [10] (map strip desc_lines'))))"
proof -
  note inv = parse_loop_desc [OF assms]
  have "fields' (lit ''Description'') = Some (strip (join [10] (map strip desc_lines')))"
    if lt: "i < length lines" and dl: "is_description_line (lines ! i)"
  proof (cases rule: parse_body_cases [where lines = lines and i = i and f = fields and d = desc_lines])
    case (desc key v d1 j)
    have "parse_loop lines j (fields(lit ''Description'' \<mapsto> strip (join [10] (map strip d1)))) d1 =
          (fields', desc_lines', c)"
      using parse_loop_Next [OF lt desc(5)] assms by simp
    from parse_loop_desc [OF this] show ?thesis
      by auto
  qed (use dl in \<open>auto simp: is_description_line_def\<close>)
  with inv show ?thesis by blast
qed

theorem description_accumulator_shared_witness:
  "is_description_line (two_descriptions ! 0) \<and> is_description_line (two_descriptions ! 2) \<and>
   parse_loop two_descriptions 0 Map.empty [] =
     parse_loop two_descriptions 2 [lit ''Description'' \<mapsto> lit ''first''] [lit ''first''] \<and>
   prefix [lit ''first''] (fst (snd (parse_loop two_descriptions 0 Map.empty []))) \<and>
   fst (parse_header two_descriptions) (lit ''Description'') =
     Some (strip (join [10] (map strip [lit ''first'', lit ''second''])))"
proof -
  have d: "is_description_line (two_descriptions ! 0)" "is_description_line (two_descriptions ! 2)"
    by (simp_all add: two_descriptions_def is_description_line_def char_simps str_simps)
  have l: "2 < length two_descriptions"
    by (simp add: two_descriptions_def)
  note th = description_accumulator_shared [OF two_descriptions_run(2)]
  from th have p: "prefix [lit ''first''] [lit ''first'', lit ''second'']"
    by blast
  from th l d(2)
  have v: "([lit ''Description'' \<mapsto> lit ''first'' @ [10] @ lit ''second'']) (lit ''Description'') =
       Some (strip (join [10] (map strip [lit ''first'', lit ''second''])))"
    by blast
  have p': "prefix [lit ''first''] (fst (snd (parse_loop two_descriptions 0 Map.empty [])))"
    unfolding two_descriptions_run(1) using p by simp
  have v': "fst (parse_header two_descriptions) (lit ''Description'') =
     Some (strip (join [10] (map strip [lit ''first'', lit ''second''])))"
    unfolding parse_header_def two_descriptions_run(1) using v by simp
  from d two_descriptions_run(3) p' v' show ?thesis
    by blast
qed

subsection \<open>main\<close>







end
